theory Spec2Isabelle
  imports Complex_Main "HOL-Library.Code_Target_Nat"
begin

section \<open>JavaScript strings and character predicates\<close>

text \<open>
  The program is \<^verbatim>\<open>script.js\<close>: \<^verbatim>\<open>parseReceiptText\<close> (lines 104 to 166) and
  \<^verbatim>\<open>escapeCsv\<close> (lines 188 to 192). A JavaScript string is a sequence of UTF-16 code
  units, and a regular expression without the flag \<^verbatim>\<open>u\<close> works on code units: a string
  is a list of natural numbers. \<open>str\<close> turns a literal into such a list.

  \<open>is_space\<close> is the class \<^verbatim>\<open>\s\<close>, which is also what \<^verbatim>\<open>trim\<close> removes: the
  white-space and line-terminator code units of ECMAScript. \<open>is_word\<close> is \<^verbatim>\<open>\w\<close> and
  \<open>is_digit\<close> is \<^verbatim>\<open>\d\<close>.

  \<open>canon\<close> is the canonicalisation of a character under the flag \<^verbatim>\<open>i\<close>: upper case
  for an ASCII letter. ECMAScript maps other characters to their upper case too, but never
  from outside ASCII into ASCII; every character that the patterns below compare under
  \<^verbatim>\<open>i\<close> is ASCII, so the comparison made here is the one the engine makes.
\<close>

type_synonym jsstring = "nat list"

definition str :: "string \<Rightarrow> jsstring" where
  "str cs = map of_char cs"

definition is_digit :: "nat \<Rightarrow> bool" where
  "is_digit c \<longleftrightarrow> 48 \<le> c \<and> c \<le> 57"

definition is_upper :: "nat \<Rightarrow> bool" where
  "is_upper c \<longleftrightarrow> 65 \<le> c \<and> c \<le> 90"

definition is_lower :: "nat \<Rightarrow> bool" where
  "is_lower c \<longleftrightarrow> 97 \<le> c \<and> c \<le> 122"

definition is_alpha :: "nat \<Rightarrow> bool" where
  "is_alpha c \<longleftrightarrow> is_upper c \<or> is_lower c"

definition is_word :: "nat \<Rightarrow> bool" where
  "is_word c \<longleftrightarrow> is_alpha c \<or> is_digit c \<or> c = 95"

definition is_space :: "nat \<Rightarrow> bool" where
  "is_space c \<longleftrightarrow>
     (9 \<le> c \<and> c \<le> 13) \<or> c = 32 \<or> c = 160 \<or> c = 5760 \<or> (8192 \<le> c \<and> c \<le> 8202) \<or>
     c = 8232 \<or> c = 8233 \<or> c = 8239 \<or> c = 8287 \<or> c = 12288 \<or> c = 65279"

definition canon :: "nat \<Rightarrow> nat" where
  "canon c = (if is_lower c then c - 32 else c)"

section \<open>Regular expressions\<close>

text \<open>
  The patterns of the program use literal characters, character classes, sequence, ordered
  alternation, greedy bounded repetition, the anchor \<^verbatim>\<open>^\<close> and the look-arounds
  \<^verbatim>\<open>(?<![...])\<close> and \<^verbatim>\<open>(?![...])\<close> on one character class. Groups only group: the
  program reads the whole match, never a capture.

  A matcher state is the character before the current position (none at the start of the
  input) and the rest of the input. \<open>rm ic r st\<close> lists the states in which a match of
  \<open>r\<close> started in \<open>st\<close> can end, in the order in which the backtracking engine tries
  them: the first alternative before the second, one more round of a greedy repetition
  before stopping. The engine's answer is the head of the list. Once the minimum of a
  repetition is reached, a round that consumes nothing is rejected, as in ECMAScript's
  RepeatMatcher.
\<close>

datatype citem = CRange nat nat | COne nat | CDigit | CWord | CSpace

datatype regex =
    Eps
  | Lit nat
  | Cls "citem list"
  | NCls "citem list"
  | Seq regex regex
  | Alt regex regex
  | Rep nat "nat option" regex
  | Bol
  | NotBehind "citem list"
  | NotAhead "citem list"

fun in_item :: "bool \<Rightarrow> citem \<Rightarrow> nat \<Rightarrow> bool" where
  "in_item ic (CRange a b) c \<longleftrightarrow>
     (a \<le> c \<and> c \<le> b) \<or>
     (ic \<and> is_lower c \<and> a \<le> c - 32 \<and> c - 32 \<le> b) \<or>
     (ic \<and> is_upper c \<and> a \<le> c + 32 \<and> c + 32 \<le> b)"
| "in_item ic (COne a) c \<longleftrightarrow> (if ic then canon a = canon c else a = c)"
| "in_item ic CDigit c \<longleftrightarrow> is_digit c"
| "in_item ic CWord c \<longleftrightarrow> is_word c"
| "in_item ic CSpace c \<longleftrightarrow> is_space c"

definition in_class :: "bool \<Rightarrow> citem list \<Rightarrow> nat \<Rightarrow> bool" where
  "in_class ic items c \<longleftrightarrow> list_ex (\<lambda>it. in_item ic it c) items"

type_synonym mstate = "nat option \<times> jsstring"

definition step_if :: "(nat \<Rightarrow> bool) \<Rightarrow> mstate \<Rightarrow> mstate list" where
  "step_if P st = (case snd st of [] \<Rightarrow> [] | c # cs \<Rightarrow> if P c then [(Some c, cs)] else [])"

definition dec_max :: "nat option \<Rightarrow> nat option" where
  "dec_max hi = map_option (\<lambda>n. n - 1) hi"

function rep_opt :: "(mstate \<Rightarrow> mstate list) \<Rightarrow> nat option \<Rightarrow> mstate \<Rightarrow> mstate list" where
  "rep_opt f hi st =
     (if hi = Some 0 then [st]
      else concat (map (\<lambda>st'. if length (snd st') < length (snd st)
                               then rep_opt f (dec_max hi) st' else []) (f st)) @ [st])"
  by pat_completeness auto
termination
  by (relation "measure (\<lambda>(f, hi, st). length (snd st))") auto

declare rep_opt.simps [simp del]

fun rep_min :: "(mstate \<Rightarrow> mstate list) \<Rightarrow> nat \<Rightarrow> nat option \<Rightarrow> mstate \<Rightarrow> mstate list" where
  "rep_min f 0 hi st = rep_opt f hi st"
| "rep_min f (Suc n) hi st = concat (map (rep_min f n (dec_max hi)) (f st))"

primrec rm :: "bool \<Rightarrow> regex \<Rightarrow> mstate \<Rightarrow> mstate list" where
  "rm ic Eps st = [st]"
| "rm ic (Lit a) st = step_if (\<lambda>c. if ic then canon a = canon c else a = c) st"
| "rm ic (Cls items) st = step_if (in_class ic items) st"
| "rm ic (NCls items) st = step_if (\<lambda>c. \<not> in_class ic items c) st"
| "rm ic (Seq r1 r2) st = concat (map (rm ic r2) (rm ic r1 st))"
| "rm ic (Alt r1 r2) st = rm ic r1 st @ rm ic r2 st"
| "rm ic (Rep lo hi r) st = rep_min (rm ic r) lo hi st"
| "rm ic Bol st = (if fst st = None then [st] else [])"
| "rm ic (NotBehind items) st =
     (case fst st of None \<Rightarrow> [st] | Some p \<Rightarrow> if in_class ic items p then [] else [st])"
| "rm ic (NotAhead items) st =
     (case snd st of [] \<Rightarrow> [st] | c # cs \<Rightarrow> if in_class ic items c then [] else [st])"

section \<open>Regular-expression combinators\<close>

text \<open>
  \<^verbatim>\<open>r?\<close>, \<^verbatim>\<open>r*\<close>, \<^verbatim>\<open>r+\<close> and \<^verbatim>\<open>r{n}\<close> as repetitions, and sequences and
  alternations of several patterns.
\<close>

definition seqs :: "regex list \<Rightarrow> regex" where
  "seqs rs = foldr Seq rs Eps"

fun alts :: "regex list \<Rightarrow> regex" where
  "alts [] = Cls []"
| "alts [r] = r"
| "alts (r # rs) = Alt r (alts rs)"

definition lit :: "string \<Rightarrow> regex" where
  "lit cs = seqs (map (\<lambda>c. Lit (of_char c)) cs)"

definition Opt :: "regex \<Rightarrow> regex" where
  "Opt r = Rep 0 (Some 1) r"

definition Star :: "regex \<Rightarrow> regex" where
  "Star r = Rep 0 None r"

definition Plus :: "regex \<Rightarrow> regex" where
  "Plus r = Rep 1 None r"

definition Times :: "nat \<Rightarrow> regex \<Rightarrow> regex" where
  "Times n r = Rep n (Some n) r"

section \<open>String methods\<close>

text \<open>
  \<open>exec_from\<close> searches the leftmost position at which the pattern matches, the end
  of the input included, and returns the text before the match, the match and the text
  after it. On it are built \<^verbatim>\<open>test\<close>, \<^verbatim>\<open>match\<close> and \<^verbatim>\<open>replace\<close> without the flag
  \<^verbatim>\<open>g\<close>, \<^verbatim>\<open>match\<close> and \<^verbatim>\<open>replace\<close> with it (after an empty match the search resumes
  one character further), \<^verbatim>\<open>split\<close>, \<^verbatim>\<open>trim\<close> and \<^verbatim>\<open>join\<close>. The replacement
  strings of the program contain no \<^verbatim>\<open>$\<close>, so a replacement is inserted as it is.
  The lemmas on lengths placed among the definitions are what the termination proofs need.
\<close>

fun exec_from :: "bool \<Rightarrow> regex \<Rightarrow> nat option \<Rightarrow> jsstring \<Rightarrow> (jsstring \<times> jsstring \<times> jsstring) option" where
  "exec_from ic r prev s =
     (case rm ic r (prev, s) of
        (p, s') # _ \<Rightarrow> Some ([], take (length s - length s') s, s')
      | [] \<Rightarrow> (case s of
                 [] \<Rightarrow> None
               | c # cs \<Rightarrow> map_option (\<lambda>(b, m, a). (c # b, m, a)) (exec_from ic r (Some c) cs)))"

declare exec_from.simps [simp del]

definition js_exec :: "bool \<Rightarrow> regex \<Rightarrow> jsstring \<Rightarrow> (jsstring \<times> jsstring \<times> jsstring) option" where
  "js_exec ic r s = exec_from ic r None s"

definition js_test :: "bool \<Rightarrow> regex \<Rightarrow> jsstring \<Rightarrow> bool" where
  "js_test ic r s \<longleftrightarrow> js_exec ic r s \<noteq> None"

definition js_match :: "bool \<Rightarrow> regex \<Rightarrow> jsstring \<Rightarrow> jsstring option" where
  "js_match ic r s = map_option (\<lambda>(b, m, a). m) (js_exec ic r s)"

definition js_replace :: "bool \<Rightarrow> regex \<Rightarrow> jsstring \<Rightarrow> jsstring \<Rightarrow> jsstring" where
  "js_replace ic r repl s =
     (case js_exec ic r s of None \<Rightarrow> s | Some (b, m, a) \<Rightarrow> b @ repl @ a)"

definition trim :: "jsstring \<Rightarrow> jsstring" where
  "trim s = rev (dropWhile is_space (rev (dropWhile is_space s)))"

fun js_join :: "jsstring \<Rightarrow> jsstring list \<Rightarrow> jsstring" where
  "js_join sep [] = []"
| "js_join sep [x] = x"
| "js_join sep (x # xs) = x @ sep @ js_join sep xs"

lemma rep_opt_suffix:
  assumes "\<And>st st'. st' \<in> set (f st) \<Longrightarrow> length (snd st') \<le> length (snd st)"
  shows "st' \<in> set (rep_opt f hi st) \<Longrightarrow> length (snd st') \<le> length (snd st)"
proof (induction f hi st arbitrary: st' rule: rep_opt.induct)
  case (1 f hi st)
  show ?case
  proof (cases "hi = Some 0")
    case True
    with "1.prems" show ?thesis by (simp add: rep_opt.simps)
  next
    case False
    from "1.prems" False
    consider "st' = st"
      | m where "m \<in> set (f st)" "length (snd m) < length (snd st)"
          "st' \<in> set (rep_opt f (dec_max hi) m)"
      by (subst (asm) rep_opt.simps) (auto split: if_splits)
    then show ?thesis
    proof cases
      case 1
      then show ?thesis by simp
    next
      case 2
      from "1.IH" [OF False 2(1) 2(2) 2(3)] 2(2) show ?thesis by simp
    qed
  qed
qed

lemma rep_min_suffix:
  assumes "\<And>st st'. st' \<in> set (f st) \<Longrightarrow> length (snd st') \<le> length (snd st)"
  shows "st' \<in> set (rep_min f n hi st) \<Longrightarrow> length (snd st') \<le> length (snd st)"
proof (induction n arbitrary: hi st st')
  case 0
  then show ?case using rep_opt_suffix [of f] assms by simp
next
  case (Suc n)
  then obtain m where m: "m \<in> set (f st)" "st' \<in> set (rep_min f n (dec_max hi) m)"
    by auto
  from Suc.IH [OF m(2)] assms [OF m(1)] show ?case by simp
qed

lemma step_if_suffix: "st' \<in> set (step_if P st) \<Longrightarrow> length (snd st') \<le> length (snd st)"
  by (cases st) (auto simp: step_if_def split: list.splits if_splits)

lemma rm_suffix: "st' \<in> set (rm ic r st) \<Longrightarrow> length (snd st') \<le> length (snd st)"
proof (induction r arbitrary: st st')
  case (Seq r1 r2)
  then obtain m where "m \<in> set (rm ic r1 st)" "st' \<in> set (rm ic r2 m)" by auto
  with Seq.IH show ?case by (meson le_trans)
next
  case (Rep lo hi r)
  then show ?case using rep_min_suffix [of "rm ic r"] by simp
qed (auto dest: step_if_suffix split: option.splits list.splits if_splits)

lemma exec_from_length:
  "exec_from ic r prev s = Some (b, m, a) \<Longrightarrow> length s = length b + length m + length a"
proof (induction s arbitrary: prev b)
  case Nil
  show ?case
  proof (cases "rm ic r (prev, [])")
    case Nil
    with Nil.prems show ?thesis by (subst (asm) exec_from.simps) simp
  next
    case (Cons st sts)
    obtain p s' where st: "st = (p, s')" by (cases st)
    have "length s' \<le> 0"
      using rm_suffix [of st ic r "(prev, [])"] Cons st by simp
    with Nil.prems Cons st show ?thesis
      by (subst (asm) exec_from.simps) auto
  qed
next
  case (Cons c cs)
  show ?case
  proof (cases "rm ic r (prev, c # cs)")
    case Nil
    with Cons.prems obtain b' where "exec_from ic r (Some c) cs = Some (b', m, a)" "b = c # b'"
      by (subst (asm) exec_from.simps) auto
    with Cons.IH show ?thesis by fastforce
  next
    case (Cons st sts)
    obtain p s' where st: "st = (p, s')" by (cases st)
    have "length s' \<le> length (c # cs)"
      using rm_suffix [of st ic r "(prev, c # cs)"] Cons st by simp
    with Cons.prems Cons st show ?thesis
      by (subst (asm) exec_from.simps) auto
  qed
qed

function match_all_from :: "bool \<Rightarrow> regex \<Rightarrow> nat option \<Rightarrow> jsstring \<Rightarrow> jsstring list" where
  "match_all_from ic r prev s =
     (case exec_from ic r prev s of
        None \<Rightarrow> []
      | Some (b, m, a) \<Rightarrow>
          m # (if m = [] then (case a of [] \<Rightarrow> [] | c # cs \<Rightarrow> match_all_from ic r (Some c) cs)
               else match_all_from ic r (Some (last m)) a))"
  by pat_completeness auto
termination
  by (relation "measure (\<lambda>(ic, r, prev, s). length s)")
     (auto dest!: exec_from_length)

declare match_all_from.simps [simp del]

definition js_match_all :: "bool \<Rightarrow> regex \<Rightarrow> jsstring \<Rightarrow> jsstring list" where
  "js_match_all ic r s = match_all_from ic r None s"

function replace_all_from :: "bool \<Rightarrow> regex \<Rightarrow> jsstring \<Rightarrow> nat option \<Rightarrow> jsstring \<Rightarrow> jsstring" where
  "replace_all_from ic r repl prev s =
     (case exec_from ic r prev s of
        None \<Rightarrow> s
      | Some (b, m, a) \<Rightarrow>
          b @ repl @
          (if m = [] then (case a of [] \<Rightarrow> [] | c # cs \<Rightarrow> c # replace_all_from ic r repl (Some c) cs)
           else replace_all_from ic r repl (Some (last m)) a))"
  by pat_completeness auto
termination
  by (relation "measure (\<lambda>(ic, r, repl, prev, s). length s)")
     (auto dest!: exec_from_length)

declare replace_all_from.simps [simp del]

definition js_replace_all :: "bool \<Rightarrow> regex \<Rightarrow> jsstring \<Rightarrow> jsstring \<Rightarrow> jsstring" where
  "js_replace_all ic r repl s = replace_all_from ic r repl None s"

function split_from :: "bool \<Rightarrow> regex \<Rightarrow> nat option \<Rightarrow> jsstring \<Rightarrow> jsstring \<Rightarrow> jsstring list" where
  "split_from ic r prev acc s =
     (case s of
        [] \<Rightarrow> [rev acc]
      | c # cs \<Rightarrow>
          (case rm ic r (prev, s) of
             [] \<Rightarrow> split_from ic r (Some c) (c # acc) cs
           | (p', s') # _ \<Rightarrow>
               if length s' < length s then rev acc # split_from ic r p' [] s'
               else if acc = [] then split_from ic r (Some c) [c] cs
               else rev acc # split_from ic r (Some c) [c] cs))"
  by pat_completeness auto
termination
  by (relation "measure (\<lambda>(ic, r, prev, acc, s). length s)") auto

declare split_from.simps [simp del]

definition js_split :: "bool \<Rightarrow> regex \<Rightarrow> jsstring \<Rightarrow> jsstring list" where
  "js_split ic r s =
     (if s = [] then (if rm ic r (None, []) = [] then [[]] else [])
      else split_from ic r None [] s)"

section \<open>The receipt parser\<close>

definition ch :: "char \<Rightarrow> nat" where
  "ch c = of_char c"

record extraction =
  date :: jsstring
  merchant :: jsstring
  total :: jsstring
  raw :: jsstring

subsection \<open>Lines and the joined text\<close>

text \<open>
  The separator of \<^verbatim>\<open>lines.join(" \\n ")\<close> is four characters: a space, a backslash,
  the letter \<^verbatim>\<open>n\<close> and a space.
\<close>

text \<open>
  Lines 105 to 110: \<^verbatim>\<open>text.split(/\r?\n/).map((l) => l.trim()).filter((l) => l.length > 0)\<close>
  and \<^verbatim>\<open>lines.join(" \\n ")\<close>.
\<close>

definition lineBreak :: regex where
  "lineBreak = Seq (Opt (Lit 13)) (Lit 10)"

definition splitLines :: "jsstring \<Rightarrow> jsstring list" where
  "splitLines text = filter (\<lambda>l. length l > 0) (map trim (js_split False lineBreak text))"

definition joinSep :: jsstring where
  "joinSep = [32, 92, 110, 32]"

definition fullTextOf :: "jsstring list \<Rightarrow> jsstring" where
  "fullTextOf lines = js_join joinSep lines"

subsection \<open>Date\<close>

text \<open>
  Lines 112 to 123. The four patterns, in the order of the array:
  \<^verbatim>\<open>/(20\d{2}|19\d{2})[-\/.](0?[1-9]|1[0-2])[-\/.](0?[1-9]|[12]\d|3[01])/\<close>,
  \<^verbatim>\<open>/(0?[1-9]|1[0-2])[-\/.](0?[1-9]|[12]\d|3[01])[-\/.](20\d{2}|19\d{2})/\<close>,
  \<^verbatim>\<open>/(0?[1-9]|[12]\d|3[01])[-\/.](0?[1-9]|1[0-2])[-\/.](20\d{2}|19\d{2})/\<close> and
  \<^verbatim>\<open>/(0?[1-9]|[12]\d|3[01])\s+(Jan|Feb|Mar|Apr|May|Jun|Jul|Aug|Sep|Sept|Oct|Nov|Dec)\w*\s+(20\d{2}|19\d{2})/i\<close>.
  Each entry of \<open>datePatterns\<close> carries the flag \<^verbatim>\<open>i\<close> of its pattern. The loop takes
  the whole match \<^verbatim>\<open>m[0]\<close> of the first pattern that matches \<^verbatim>\<open>fullText\<close>.
\<close>

definition rxYear :: regex where
  "rxYear = Alt (Seq (lit ''20'') (Times 2 (Cls [CDigit]))) (Seq (lit ''19'') (Times 2 (Cls [CDigit])))"

definition rxSep :: regex where
  "rxSep = Cls [COne (ch CHR ''-''), COne (ch CHR ''/''), COne (ch CHR ''.'')]"

definition rxMonth :: regex where
  "rxMonth = Alt (Seq (Opt (lit ''0'')) (Cls [CRange (ch CHR ''1'') (ch CHR ''9'')]))
                 (Seq (lit ''1'') (Cls [CRange (ch CHR ''0'') (ch CHR ''2'')]))"

definition rxDay :: regex where
  "rxDay = alts [Seq (Opt (lit ''0'')) (Cls [CRange (ch CHR ''1'') (ch CHR ''9'')]),
                 Seq (Cls [COne (ch CHR ''1''), COne (ch CHR ''2'')]) (Cls [CDigit]),
                 Seq (lit ''3'') (Cls [COne (ch CHR ''0''), COne (ch CHR ''1'')])]"

definition rxMonthName :: regex where
  "rxMonthName = alts (map lit [''Jan'', ''Feb'', ''Mar'', ''Apr'', ''May'', ''Jun'', ''Jul'',
                                ''Aug'', ''Sep'', ''Sept'', ''Oct'', ''Nov'', ''Dec''])"

definition dateYMD :: regex where
  "dateYMD = seqs [rxYear, rxSep, rxMonth, rxSep, rxDay]"

definition dateMDY :: regex where
  "dateMDY = seqs [rxMonth, rxSep, rxDay, rxSep, rxYear]"

definition dateDMY :: regex where
  "dateDMY = seqs [rxDay, rxSep, rxMonth, rxSep, rxYear]"

definition dateDMonY :: regex where
  "dateDMonY = seqs [rxDay, Plus (Cls [CSpace]), rxMonthName, Star (Cls [CWord]),
                     Plus (Cls [CSpace]), rxYear]"

definition datePatterns :: "(bool \<times> regex) list" where
  "datePatterns = [(False, dateYMD), (False, dateMDY), (False, dateDMY), (True, dateDMonY)]"

fun firstDate :: "(bool \<times> regex) list \<Rightarrow> jsstring \<Rightarrow> jsstring" where
  "firstDate [] fullText = []"
| "firstDate ((ic, rx) # rest) fullText =
     (case js_match ic rx fullText of Some m \<Rightarrow> m | None \<Rightarrow> firstDate rest fullText)"

definition findDate :: "jsstring \<Rightarrow> jsstring" where
  "findDate fullText = firstDate datePatterns fullText"

subsection \<open>Total\<close>

text \<open>
  The first loop runs from the last line to the first and stops at the first line that
  sets \<^verbatim>\<open>foundTotal\<close>: \<open>lineTotal\<close> is one round of it and \<open>tier1\<close>, applied to the
  reversed lines, is the loop. The second loop keeps the largest value met and the string
  it came from.
\<close>

text \<open>
  Lines 125 to 151. The amount is
  \<^verbatim>\<open>([0-9]{1,3}(?:,[0-9]{3})*(?:\.[0-9]{2})|[0-9]+\.[0-9]{2})\<close>; \<^verbatim>\<open>currencyAmount\<close> is
  \<^verbatim>\<open>(?:\$|USD\s*\$?|EUR\s*E?|P|E)\s*\<close> followed by the amount, where \<^verbatim>\<open>E\<close> stands
  for the euro sign (code unit 8364) and \<^verbatim>\<open>P\<close> for the pound sign (code unit 163);
  \<^verbatim>\<open>amountOnly\<close> is the amount between \<^verbatim>\<open>(?<![A-Za-z])\<close> and \<^verbatim>\<open>(?![A-Za-z])\<close>.
  The keyword test is
  \<^verbatim>\<open>/(grand\s*total|total\s*amount|amount\s*due|balance\s*due|total)/i\<close>, and the junk
  removed in front of a currency-anchored match is \<^verbatim>\<open>/^[^0-9$EP]+/\<close>.
\<close>

definition rxDigit09 :: regex where
  "rxDigit09 = Cls [CRange (ch CHR ''0'') (ch CHR ''9'')]"

definition rxFrac :: regex where
  "rxFrac = Seq (lit ''.'') (Times 2 rxDigit09)"

definition rxAmount :: regex where
  "rxAmount = Alt (seqs [Rep 1 (Some 3) rxDigit09, Star (Seq (lit '','') (Times 3 rxDigit09)), rxFrac])
                  (seqs [Plus rxDigit09, rxFrac])"

definition rxCurrency :: regex where
  "rxCurrency = alts [lit ''$'',
                      seqs [lit ''USD'', Star (Cls [CSpace]), Opt (lit ''$'')],
                      seqs [lit ''EUR'', Star (Cls [CSpace]), Opt (Lit 8364)],
                      Lit 163,
                      Lit 8364]"

definition currencyAmount :: regex where
  "currencyAmount = seqs [rxCurrency, Star (Cls [CSpace]), rxAmount]"

definition rxLetter :: "citem list" where
  "rxLetter = [CRange (ch CHR ''A'') (ch CHR ''Z''), CRange (ch CHR ''a'') (ch CHR ''z'')]"

definition amountOnly :: regex where
  "amountOnly = seqs [NotBehind rxLetter, rxAmount, NotAhead rxLetter]"

definition totalKeyword :: regex where
  "totalKeyword = alts [seqs [lit ''grand'', Star (Cls [CSpace]), lit ''total''],
                        seqs [lit ''total'', Star (Cls [CSpace]), lit ''amount''],
                        seqs [lit ''amount'', Star (Cls [CSpace]), lit ''due''],
                        seqs [lit ''balance'', Star (Cls [CSpace]), lit ''due''],
                        lit ''total'']"

definition leadingJunk :: regex where
  "leadingJunk = Seq Bol (Plus (NCls [CRange (ch CHR ''0'') (ch CHR ''9''), COne (ch CHR ''$''),
                                      COne 8364, COne 163]))"

definition lineTotal :: "jsstring \<Rightarrow> jsstring option" where
  "lineTotal line =
     (if js_test True totalKeyword line then
        (case js_match False currencyAmount line of
           Some m1 \<Rightarrow> Some (trim (js_replace False leadingJunk [] m1))
         | None \<Rightarrow> js_match False amountOnly line)
      else None)"

fun tier1 :: "jsstring list \<Rightarrow> jsstring" where
  "tier1 [] = []"
| "tier1 (line # earlier) = (case lineTotal line of Some t \<Rightarrow> t | None \<Rightarrow> tier1 earlier)"

text \<open>
  \<^verbatim>\<open>parseFloat\<close> on a decimal literal: optional white space and sign, digits, an optional
  fraction; \<open>None\<close> is NaN. The exponent part and \<^verbatim>\<open>Infinity\<close> are left out: the program
  calls \<^verbatim>\<open>parseFloat\<close> only on a match of the amount pattern with its commas removed,
  which holds digits and one point. The value is the exact decimal, a rational number; it
  is compared as JavaScript compares the doubles as long as the amounts have at most 15
  significant digits, since rounding to a double is monotone and injective on those.
\<close>

definition digitsVal :: "jsstring \<Rightarrow> nat" where
  "digitsVal ds = foldl (\<lambda>a c. 10 * a + (c - 48)) 0 ds"

definition parseFloat :: "jsstring \<Rightarrow> rat option" where
  "parseFloat s =
     (let s1 = dropWhile is_space s;
          neg = (case s1 of [] \<Rightarrow> False | c # cs \<Rightarrow> c = ch CHR ''-'');
          s2 = (case s1 of [] \<Rightarrow> [] | c # cs \<Rightarrow> if c = ch CHR ''-'' \<or> c = ch CHR ''+'' then cs else s1);
          ip = takeWhile is_digit s2;
          r = dropWhile is_digit s2;
          fp = (case r of [] \<Rightarrow> [] | c # cs \<Rightarrow> if c = ch CHR ''.'' then takeWhile is_digit cs else [])
      in if ip = [] \<and> fp = [] then None
         else Some ((if neg then - 1 else 1) *
                    (of_nat (digitsVal ip) + of_nat (digitsVal fp) / 10 ^ length fp)))"

definition amountValue :: "jsstring \<Rightarrow> rat option" where
  "amountValue s = parseFloat (js_replace_all False (lit '','') [] s)"

fun maxOfMatches :: "jsstring list \<Rightarrow> rat \<times> jsstring \<Rightarrow> rat \<times> jsstring" where
  "maxOfMatches [] acc = acc"
| "maxOfMatches (s # ss) (maxVal, maxStr) =
     (case amountValue s of
        Some v \<Rightarrow> if v > maxVal then maxOfMatches ss (v, s) else maxOfMatches ss (maxVal, maxStr)
      | None \<Rightarrow> maxOfMatches ss (maxVal, maxStr))"

fun maxOfLines :: "jsstring list \<Rightarrow> rat \<times> jsstring \<Rightarrow> rat \<times> jsstring" where
  "maxOfLines [] acc = acc"
| "maxOfLines (line # later) acc = maxOfLines later (maxOfMatches (js_match_all False rxAmount line) acc)"

definition tier2 :: "jsstring list \<Rightarrow> jsstring" where
  "tier2 lines = (case maxOfLines lines (- 1, []) of (maxVal, maxStr) \<Rightarrow> if maxVal > 0 then maxStr else [])"

definition findTotal :: "jsstring list \<Rightarrow> jsstring" where
  "findTotal lines = (let foundTotal = tier1 (rev lines) in if foundTotal = [] then tier2 lines else foundTotal)"

subsection \<open>Merchant\<close>

text \<open>
  Lines 153 to 163. The deny-list is the alternation of the twenty-six keywords under the
  flag \<^verbatim>\<open>i\<close>; the letters are counted by removing \<^verbatim>\<open>/[^A-Za-z]/g\<close>; a surviving
  line is cleaned by removing \<^verbatim>\<open>/[^A-Za-z0-9 .,&'-]/g\<close>, replacing \<^verbatim>\<open>/\s{2,}/g\<close> by
  one space, and trimming. The loop looks at the first \<^verbatim>\<open>Math.min(lines.length, 12)\<close>
  lines and stops at the first line whose cleaned form is not empty.
\<close>

definition skipKeywords :: regex where
  "skipKeywords = alts (map lit [''receipt'', ''invoice'', ''store'', ''market'', ''mart'', ''supermarket'',
      ''shop'', ''cashier'', ''transaction'', ''date'', ''time'', ''subtotal'', ''tax'', ''vat'', ''total'',
      ''amount'', ''phone'', ''tel'', ''address'', ''pos'', ''terminal'', ''card'', ''change'', ''cash'',
      ''credit'', ''debit''])"

text \<open>
  \<^verbatim>\<open>alphaRatio < 0.3\<close>, with the ratio taken exactly. The double nearest to 0.3 lies
  below 3/10 by about 1.1e-17, and a ratio of two lengths below 3/10 lies below it by at
  least 1/(10 * length): for a line of fewer than 10^15 characters (no engine holds a
  longer string) the comparison of the doubles agrees with the exact one. On an empty line
  JavaScript computes NaN, which is not less than 0.3.
\<close>

definition alphaCount :: "jsstring \<Rightarrow> nat" where
  "alphaCount line = length (js_replace_all False (NCls rxLetter) [] line)"

definition alphaRatioLow :: "jsstring \<Rightarrow> bool" where
  "alphaRatioLow line \<longleftrightarrow> line \<noteq> [] \<and> (of_nat (alphaCount line) / of_nat (length line) :: rat) < 3 / 10"

definition rxNotNameChar :: regex where
  "rxNotNameChar = NCls [CRange (ch CHR ''A'') (ch CHR ''Z''), CRange (ch CHR ''a'') (ch CHR ''z''),
                         CRange (ch CHR ''0'') (ch CHR ''9''), COne (ch CHR '' ''), COne (ch CHR ''.''),
                         COne (ch CHR '',''), COne (ch CHR ''&''), COne 39, COne (ch CHR ''-'')]"

definition sanitize :: "jsstring \<Rightarrow> jsstring" where
  "sanitize line = trim (js_replace_all False (Rep 2 None (Cls [CSpace])) [32]
                          (js_replace_all False rxNotNameChar [] line))"

fun merchantScan :: "jsstring list \<Rightarrow> jsstring" where
  "merchantScan [] = []"
| "merchantScan (line # later) =
     (if alphaRatioLow line then merchantScan later
      else if js_test True skipKeywords line then merchantScan later
      else if length line < 2 then merchantScan later
      else (let foundMerchant = sanitize line in
            if foundMerchant \<noteq> [] then foundMerchant else merchantScan later))"

definition findMerchant :: "jsstring list \<Rightarrow> jsstring" where
  "findMerchant lines = merchantScan (take (min (length lines) 12) lines)"

subsection \<open>Orchestration\<close>

definition parseReceiptText :: "jsstring \<Rightarrow> extraction" where
  "parseReceiptText text =
     (let lines = splitLines text;
          fullText = fullTextOf lines
      in \<lparr> date = findDate fullText, merchant = findMerchant lines,
           total = findTotal lines, raw = text \<rparr>)"

section \<open>CSV export\<close>

text \<open>
  \<^verbatim>\<open>escapeCsv\<close> is called on strings only (the header names and the three extracted
  fields), so \<^verbatim>\<open>String(value ?? "")\<close> is the value itself.
\<close>




section \<open>Notions used in the statements\<close>

text \<open>
  The language of a regular expression (look-arounds and the anchor read as the empty
  word), the shape of an amount, and the amount-shaped substrings of a receipt in the
  order the fallback scan meets them.
\<close>

definition upd_prev :: "nat option \<Rightarrow> jsstring \<Rightarrow> nat option" where
  "upd_prev p w = (if w = [] then p else Some (last w))"

definition char_ok :: "bool \<Rightarrow> nat \<Rightarrow> nat \<Rightarrow> bool" where
  "char_ok ic a c \<longleftrightarrow> (if ic then canon a = canon c else a = c)"

definition rep_lang :: "jsstring set \<Rightarrow> nat \<Rightarrow> nat option \<Rightarrow> jsstring set" where
  "rep_lang L lo hi =
     {concat ws | ws. set ws \<subseteq> L \<and> lo \<le> length ws \<and> (\<forall>h. hi = Some h \<longrightarrow> length ws \<le> max lo h)}"

primrec lang :: "bool \<Rightarrow> regex \<Rightarrow> jsstring set" where
  "lang ic Eps = {[]}"
| "lang ic (Lit a) = {[c] | c. char_ok ic a c}"
| "lang ic (Cls items) = {[c] | c. in_class ic items c}"
| "lang ic (NCls items) = {[c] | c. \<not> in_class ic items c}"
| "lang ic (Seq r1 r2) = {u @ v | u v. u \<in> lang ic r1 \<and> v \<in> lang ic r2}"
| "lang ic (Alt r1 r2) = lang ic r1 \<union> lang ic r2"
| "lang ic (Rep lo hi r) = rep_lang (lang ic r) lo hi"
| "lang ic Bol = {[]}"
| "lang ic (NotBehind items) = {[]}"
| "lang ic (NotAhead items) = {[]}"

definition consumes :: "jsstring set \<Rightarrow> mstate \<Rightarrow> mstate \<Rightarrow> bool" where
  "consumes L st st' \<longleftrightarrow> (\<exists>w\<in>L. snd st = w @ snd st' \<and> fst st' = upd_prev (fst st) w)"

definition amountShape :: "jsstring \<Rightarrow> bool" where
  "amountShape m \<longleftrightarrow>
     (\<exists>d0 body d1 d2. m = d0 # body @ [46, d1, d2] \<and> is_digit d0 \<and> is_digit d1 \<and> is_digit d2 \<and>
        (\<forall>c\<in>set body. is_digit c \<or> c = 44))"

definition endsWithCents :: "jsstring \<Rightarrow> bool" where
  "endsWithCents t \<longleftrightarrow> (\<exists>pre d1 d2. t = pre @ [46, d1, d2] \<and> is_digit d1 \<and> is_digit d2)"

definition candidates :: "jsstring list \<Rightarrow> jsstring list" where
  "candidates lines = concat (map (js_match_all False rxAmount) lines)"

section \<open>Properties of the matcher and of the string methods\<close>

lemma upd_prev_append: "upd_prev (upd_prev p u) v = upd_prev p (u @ v)"
  by (simp add: upd_prev_def)

lemma consumes_seq:
  "consumes L1 st m \<Longrightarrow> consumes L2 m st' \<Longrightarrow> consumes {u @ v | u v. u \<in> L1 \<and> v \<in> L2} st st'"
proof -
  assume a: "consumes L1 st m" and b: "consumes L2 m st'"
  from a obtain u where u: "u \<in> L1" "snd st = u @ snd m" "fst m = upd_prev (fst st) u"
    unfolding consumes_def by blast
  from b obtain v where v: "v \<in> L2" "snd m = v @ snd st'" "fst st' = upd_prev (fst m) v"
    unfolding consumes_def by blast
  have "u @ v \<in> {u @ v | u v. u \<in> L1 \<and> v \<in> L2}" using u(1) v(1) by blast
  moreover have "snd st = (u @ v) @ snd st'" using u(2) v(2) by simp
  moreover have "fst st' = upd_prev (fst st) (u @ v)"
    using u(3) v(3) by (simp add: upd_prev_append)
  ultimately show ?thesis unfolding consumes_def by blast
qed

lemma consumes_eps: "consumes {[]} st st"
  by (simp add: consumes_def upd_prev_def)

lemma rep_lang_zero: "[] \<in> rep_lang L 0 hi"
  unfolding rep_lang_def by (rule CollectI, rule exI [of _ "[]"]) simp

lemma rep_lang_more:
  assumes "u \<in> L" "v \<in> rep_lang L 0 (dec_max hi)" "hi \<noteq> Some 0"
  shows "u @ v \<in> rep_lang L 0 hi"
proof -
  from assms(2) obtain ws where ws: "v = concat ws" "set ws \<subseteq> L"
    "\<forall>h. dec_max hi = Some h \<longrightarrow> length ws \<le> h"
    unfolding rep_lang_def by auto
  have "u @ v = concat (u # ws)" using ws by simp
  moreover have "set (u # ws) \<subseteq> L" using ws assms(1) by simp
  moreover have "\<forall>h. hi = Some h \<longrightarrow> length (u # ws) \<le> max 0 h"
    using ws(3) assms(3) by (auto simp: dec_max_def)
  ultimately show ?thesis unfolding rep_lang_def by blast
qed

lemma rep_lang_suc:
  assumes "u \<in> L" "v \<in> rep_lang L n (dec_max hi)"
  shows "u @ v \<in> rep_lang L (Suc n) hi"
proof -
  from assms(2) obtain ws where ws: "v = concat ws" "set ws \<subseteq> L" "n \<le> length ws"
    "\<forall>h. dec_max hi = Some h \<longrightarrow> length ws \<le> max n h"
    unfolding rep_lang_def by auto
  have "u @ v = concat (u # ws)" using ws by simp
  moreover have "set (u # ws) \<subseteq> L" using ws assms(1) by simp
  moreover have "Suc n \<le> length (u # ws)" using ws by simp
  moreover have "\<forall>h. hi = Some h \<longrightarrow> length (u # ws) \<le> max (Suc n) h"
    using ws(4) by (auto simp: dec_max_def)
  ultimately show ?thesis unfolding rep_lang_def by blast
qed

lemma rep_opt_sound:
  assumes "st' \<in> set (rep_opt f hi st)"
    and "\<And>st st'. st' \<in> set (f st) \<Longrightarrow> consumes L st st'"
  shows "consumes (rep_lang L 0 hi) st st'"
  using assms
proof (induction f hi st arbitrary: st' rule: rep_opt.induct)
  case (1 f hi st)
  have base: "consumes (rep_lang L 0 hi) st st"
    using rep_lang_zero [of L hi] by (auto simp: consumes_def upd_prev_def)
  show ?case
  proof (cases "hi = Some 0")
    case True
    with "1.prems" base show ?thesis by (simp add: rep_opt.simps)
  next
    case False
    from "1.prems"(1) False
    consider "st' = st"
      | m where "m \<in> set (f st)" "length (snd m) < length (snd st)"
          "st' \<in> set (rep_opt f (dec_max hi) m)"
      by (subst (asm) rep_opt.simps) (auto split: if_splits)
    then show ?thesis
    proof cases
      case 1
      with base show ?thesis by simp
    next
      case 2
      have a: "consumes L st m" using "1.prems"(2) 2(1) by simp
      have b: "consumes (rep_lang L 0 (dec_max hi)) m st'"
        using "1.IH" [OF False 2(1) 2(2) 2(3)] "1.prems"(2) by simp
      from a obtain u where u: "u \<in> L" "snd st = u @ snd m" "fst m = upd_prev (fst st) u"
        unfolding consumes_def by blast
      from b obtain v where v: "v \<in> rep_lang L 0 (dec_max hi)" "snd m = v @ snd st'"
        "fst st' = upd_prev (fst m) v"
        unfolding consumes_def by blast
      have "u @ v \<in> rep_lang L 0 hi" using rep_lang_more [OF u(1) v(1) False] .
      moreover have "snd st = (u @ v) @ snd st'" using u(2) v(2) by simp
      moreover have "fst st' = upd_prev (fst st) (u @ v)"
        using u(3) v(3) by (simp add: upd_prev_append)
      ultimately show ?thesis unfolding consumes_def by blast
    qed
  qed
qed

lemma rep_min_sound:
  assumes f: "\<And>st st'. st' \<in> set (f st) \<Longrightarrow> consumes L st st'"
  shows "st' \<in> set (rep_min f n hi st) \<Longrightarrow> consumes (rep_lang L n hi) st st'"
proof (induction n arbitrary: hi st st')
  case 0
  then show ?case using rep_opt_sound [of st' f hi st L] f by simp
next
  case (Suc n)
  then obtain m where m: "m \<in> set (f st)" "st' \<in> set (rep_min f n (dec_max hi) m)"
    by auto
  have a: "consumes L st m" using f m(1) by simp
  have b: "consumes (rep_lang L n (dec_max hi)) m st'" using Suc.IH [OF m(2)] .
  from a obtain u where u: "u \<in> L" "snd st = u @ snd m" "fst m = upd_prev (fst st) u"
    unfolding consumes_def by blast
  from b obtain v where v: "v \<in> rep_lang L n (dec_max hi)" "snd m = v @ snd st'"
    "fst st' = upd_prev (fst m) v"
    unfolding consumes_def by blast
  have "u @ v \<in> rep_lang L (Suc n) hi" using rep_lang_suc [OF u(1) v(1)] .
  moreover have "snd st = (u @ v) @ snd st'" using u(2) v(2) by simp
  moreover have "fst st' = upd_prev (fst st) (u @ v)"
    using u(3) v(3) by (simp add: upd_prev_append)
  ultimately show ?case unfolding consumes_def by blast
qed

lemma step_if_sound:
  assumes "st' \<in> set (step_if P st)"
  shows "consumes {[c] | c. P c} st st'"
proof -
  obtain c cs where c: "snd st = c # cs" "P c" "st' = (Some c, cs)"
  proof (cases "snd st")
    case Nil
    with assms show ?thesis by (simp add: step_if_def)
  next
    case (Cons c cs)
    with assms have "P c" "st' = (Some c, cs)" by (auto simp: step_if_def split: if_splits)
    with Cons that show ?thesis by blast
  qed
  have "[c] \<in> {[c] | c. P c}" using c(2) by blast
  moreover have "snd st = [c] @ snd st'" using c by simp
  moreover have "fst st' = upd_prev (fst st) [c]" using c by (simp add: upd_prev_def)
  ultimately show ?thesis unfolding consumes_def by blast
qed

lemma rm_sound: "st' \<in> set (rm ic r st) \<Longrightarrow> consumes (lang ic r) st st'"
proof (induction r arbitrary: st st')
  case (Seq r1 r2)
  then obtain m where "m \<in> set (rm ic r1 st)" "st' \<in> set (rm ic r2 m)" by auto
  with Seq.IH have "consumes (lang ic r1) st m" "consumes (lang ic r2) m st'" by auto
  then show ?case using consumes_seq by simp
next
  case (Rep lo hi r)
  then show ?case using rep_min_sound [of "rm ic r" "lang ic r"] by simp
next
  case (Lit a)
  then show ?case using step_if_sound [of st' "\<lambda>c. if ic then canon a = canon c else a = c" st]
    by (simp add: char_ok_def)
next
  case (Cls items)
  then show ?case using step_if_sound [of st' "in_class ic items" st] by simp
next
  case (NCls items)
  then show ?case using step_if_sound [of st' "\<lambda>c. \<not> in_class ic items c" st] by simp
next
  case (Alt r1 r2)
  from Alt.prems have "st' \<in> set (rm ic r1 st) \<or> st' \<in> set (rm ic r2 st)" by simp
  with Alt.IH have "consumes (lang ic r1) st st' \<or> consumes (lang ic r2) st st'" by blast
  then show ?case unfolding consumes_def by auto
qed (auto simp: consumes_eps split: option.splits list.splits if_splits)

lemma exec_from_sound:
  "exec_from ic r prev s = Some (b, m, a) \<Longrightarrow> s = b @ m @ a \<and> m \<in> lang ic r"
proof (induction s arbitrary: prev b)
  case Nil
  show ?case
  proof (cases "rm ic r (prev, [])")
    case Nil
    with Nil.prems show ?thesis by (subst (asm) exec_from.simps) simp
  next
    case (Cons st sts)
    obtain p s' where st: "st = (p, s')" by (cases st)
    have "consumes (lang ic r) (prev, []) (p, s')"
      using rm_sound [of st ic r "(prev, [])"] Cons st by simp
    then have "s' = []" "[] \<in> lang ic r" unfolding consumes_def by auto
    with Nil.prems Cons st show ?thesis
      by (subst (asm) exec_from.simps) auto
  qed
next
  case (Cons c cs)
  show ?case
  proof (cases "rm ic r (prev, c # cs)")
    case Nil
    with Cons.prems obtain b' where "exec_from ic r (Some c) cs = Some (b', m, a)" "b = c # b'"
      by (subst (asm) exec_from.simps) auto
    with Cons.IH show ?thesis by fastforce
  next
    case (Cons st sts)
    obtain p s' where st: "st = (p, s')" by (cases st)
    have "consumes (lang ic r) (prev, c # cs) (p, s')"
      using rm_sound [of st ic r "(prev, c # cs)"] Cons st by simp
    then obtain w where w: "w \<in> lang ic r" "c # cs = w @ s'" unfolding consumes_def by auto
    have "take (length (c # cs) - length s') (c # cs) = w"
      by (subst w(2), subst w(2)) simp
    with Cons.prems Cons st w show ?thesis
      by (subst (asm) exec_from.simps) auto
  qed
qed

lemma js_match_sound:
  assumes "js_match ic r s = Some m"
  shows "m \<in> lang ic r" and "\<exists>b a. s = b @ m @ a"
proof -
  from assms obtain b a where "exec_from ic r None s = Some (b, m, a)"
    by (auto simp: js_match_def js_exec_def)
  from exec_from_sound [OF this] show "m \<in> lang ic r" and "\<exists>b a. s = b @ m @ a" by blast+
qed

lemma match_all_from_sound:
  "m \<in> set (match_all_from ic r prev s) \<Longrightarrow> m \<in> lang ic r"
proof (induction ic r prev s rule: match_all_from.induct)
  case (1 ic r prev s)
  show ?case
  proof (cases "exec_from ic r prev s")
    case None
    with "1.prems" show ?thesis by (subst (asm) match_all_from.simps) simp
  next
    case (Some t)
    obtain b m0 a where t: "t = (b, m0, a)" by (cases t)
    have m0: "m0 \<in> lang ic r" using exec_from_sound Some t by blast
    show ?thesis
    proof (cases "m = m0")
      case True
      with m0 show ?thesis by simp
    next
      case False
      show ?thesis
      proof (cases "m0 = []")
        case True
        with "1.prems" Some t False obtain c cs where "a = c # cs"
          "m \<in> set (match_all_from ic r (Some c) cs)"
          by (subst (asm) match_all_from.simps) (auto split: list.splits)
        with "1.IH"(1) Some t True show ?thesis by simp
      next
        case F2: False
        with "1.prems" Some t False have "m \<in> set (match_all_from ic r (Some (last m0)) a)"
          by (subst (asm) match_all_from.simps) auto
        with "1.IH"(2) Some t F2 show ?thesis by simp
      qed
    qed
  qed
qed

lemma rep_lang_chars:
  assumes "w \<in> rep_lang L lo hi" and "\<And>u. u \<in> L \<Longrightarrow> \<forall>c\<in>set u. P c"
  shows "\<forall>c\<in>set w. P c"
proof -
  from assms(1) obtain ws where "w = concat ws" "set ws \<subseteq> L" unfolding rep_lang_def by blast
  with assms(2) show ?thesis by auto
qed

lemma rep_lang_nonempty:
  assumes "w \<in> rep_lang L (Suc n) hi" and "\<And>u. u \<in> L \<Longrightarrow> u \<noteq> []"
  shows "w \<noteq> []"
proof -
  from assms(1) obtain ws where ws: "w = concat ws" "set ws \<subseteq> L" "Suc n \<le> length ws"
    unfolding rep_lang_def by blast
  then obtain x xs where "ws = x # xs" by (cases ws) auto
  with ws assms(2) show ?thesis by auto
qed

lemma rep_lang_two:
  assumes "w \<in> rep_lang {[c] | c. P c} 2 (Some 2)"
  shows "\<exists>d1 d2. w = [d1, d2] \<and> P d1 \<and> P d2"
proof -
  from assms obtain ws where ws: "w = concat ws" "set ws \<subseteq> {[c] | c. P c}" "length ws = 2"
    unfolding rep_lang_def by auto
  from ws(3) obtain a b where ab: "ws = [a, b]"
    by (cases ws; cases "tl ws") auto
  with ws(2) obtain d1 d2 where "a = [d1]" "P d1" "b = [d2]" "P d2" by auto
  with ws(1) ab show ?thesis by simp
qed

lemma in_class_digit09 [simp]:
  "in_class False [CRange (ch CHR ''0'') (ch CHR ''9'')] c \<longleftrightarrow> is_digit c"
  by (simp add: in_class_def ch_def is_digit_def)

lemma lang_digit09: "lang False rxDigit09 = {[c] | c. is_digit c}"
  by (simp add: rxDigit09_def)

lemma lang_lit1: "lang False (lit [x]) = {[of_char x]}"
  by (auto simp: lit_def seqs_def char_ok_def)

lemma lang_frac:
  assumes "w \<in> lang False rxFrac"
  shows "\<exists>d1 d2. w = [46, d1, d2] \<and> is_digit d1 \<and> is_digit d2"
proof -
  from assms obtain u v where uv: "w = u @ v" "u \<in> lang False (lit ''.'')"
    "v \<in> rep_lang {[c] | c. is_digit c} 2 (Some 2)"
    by (auto simp: rxFrac_def Times_def lang_digit09)
  from uv(2) have "u = [46]" by (simp add: lang_lit1)
  with uv(1) rep_lang_two [OF uv(3)] show ?thesis by auto
qed

lemma lang_digits_plus:
  assumes "w \<in> rep_lang {[c] | c. is_digit c} (Suc n) hi"
  shows "\<exists>d0 ds. w = d0 # ds \<and> is_digit d0 \<and> (\<forall>c\<in>set ds. is_digit c)"
proof -
  have a: "\<forall>c\<in>set w. is_digit c"
    by (rule rep_lang_chars [OF assms]) auto
  have "w \<noteq> []" by (rule rep_lang_nonempty [OF assms]) auto
  then obtain d0 ds where "w = d0 # ds" by (cases w) auto
  with a show ?thesis by auto
qed

lemma lang_groups:
  assumes "w \<in> lang False (Star (Seq (lit '','') (Times 3 rxDigit09)))"
  shows "\<forall>c\<in>set w. is_digit c \<or> c = 44"
proof -
  let ?L = "lang False (Seq (lit '','') (Times 3 rxDigit09))"
  have w: "w \<in> rep_lang ?L 0 None" using assms by (simp add: Star_def)
  show ?thesis
  proof (rule rep_lang_chars [OF w])
    fix u assume "u \<in> ?L"
    then obtain x y where xy: "u = x @ y" "x \<in> lang False (lit '','')"
      "y \<in> rep_lang {[c] | c. is_digit c} 3 (Some 3)"
      by (auto simp: Times_def lang_digit09)
    have "\<forall>c\<in>set y. is_digit c" by (rule rep_lang_chars [OF xy(3)]) auto
    moreover have "x = [44]" using xy(2) by (simp add: lang_lit1)
    ultimately show "\<forall>c\<in>set u. is_digit c \<or> c = 44" using xy(1) by auto
  qed
qed

lemma lang_amount:
  assumes "w \<in> lang False rxAmount"
  shows "amountShape w"
proof -
  let ?A = "seqs [Rep 1 (Some 3) rxDigit09, Star (Seq (lit '','') (Times 3 rxDigit09)), rxFrac]"
  let ?B = "seqs [Plus rxDigit09, rxFrac]"
  from assms consider "w \<in> lang False ?A" | "w \<in> lang False ?B"
    by (auto simp: rxAmount_def)
  then show ?thesis
  proof cases
    case 1
    then obtain u v f where uvf: "w = u @ v @ f"
      "u \<in> rep_lang {[c] | c. is_digit c} (Suc 0) (Some 3)"
      "v \<in> lang False (Star (Seq (lit '','') (Times 3 rxDigit09)))"
      "f \<in> lang False rxFrac"
      by (auto simp: seqs_def lang_digit09)
    from lang_digits_plus [OF uvf(2)] obtain d0 ds where
      u: "u = d0 # ds" "is_digit d0" "\<forall>c\<in>set ds. is_digit c" by blast
    from lang_frac [OF uvf(4)] obtain d1 d2 where
      f: "f = [46, d1, d2]" "is_digit d1" "is_digit d2" by blast
    have "w = d0 # (ds @ v) @ [46, d1, d2]" using uvf(1) u(1) f(1) by simp
    moreover have "\<forall>c\<in>set (ds @ v). is_digit c \<or> c = 44"
      using u(3) lang_groups [OF uvf(3)] by auto
    ultimately show ?thesis unfolding amountShape_def using u(2) f(2,3) by blast
  next
    case 2
    then obtain u f where uf: "w = u @ f"
      "u \<in> rep_lang {[c] | c. is_digit c} (Suc 0) None"
      "f \<in> lang False rxFrac"
      by (auto simp: seqs_def Plus_def lang_digit09)
    from lang_digits_plus [OF uf(2)] obtain d0 ds where
      u: "u = d0 # ds" "is_digit d0" "\<forall>c\<in>set ds. is_digit c" by blast
    from lang_frac [OF uf(3)] obtain d1 d2 where
      f: "f = [46, d1, d2]" "is_digit d1" "is_digit d2" by blast
    have "w = d0 # ds @ [46, d1, d2]" using uf(1) u(1) f(1) by simp
    moreover have "\<forall>c\<in>set ds. is_digit c \<or> c = 44" using u(3) by auto
    ultimately show ?thesis unfolding amountShape_def using u(2) f(2,3) by blast
  qed
qed

lemma amountShape_ends: "amountShape amt \<Longrightarrow> endsWithCents (u @ amt)"
proof -
  assume "amountShape amt"
  then obtain d0 body d1 d2 where a: "amt = d0 # body @ [46, d1, d2]" "is_digit d1" "is_digit d2"
    unfolding amountShape_def by blast
  have "u @ amt = (u @ d0 # body) @ [46, d1, d2]" using a(1) by simp
  with a(2,3) show ?thesis unfolding endsWithCents_def by blast
qed

lemma digit_not_space: "is_digit c \<Longrightarrow> \<not> is_space c"
  by (auto simp: is_digit_def is_space_def)

lemma lang_amountOnly:
  assumes "w \<in> lang False amountOnly"
  shows "amountShape w"
proof -
  from assms have "w \<in> lang False rxAmount" by (auto simp: amountOnly_def seqs_def)
  then show ?thesis by (rule lang_amount)
qed

lemma lang_currencyAmount:
  assumes "w \<in> lang False currencyAmount"
  shows "\<exists>u amt. w = u @ amt \<and> amountShape amt"
proof -
  from assms obtain c sp amt where "w = c @ sp @ amt" "amt \<in> lang False rxAmount"
    by (auto simp: currencyAmount_def seqs_def)
  then have "w = (c @ sp) @ amt" "amountShape amt" using lang_amount by auto
  then show ?thesis by blast
qed

lemma exec_from_bol_later: "exec_from ic (Seq Bol r) (Some p) s = None"
proof (induction s arbitrary: p)
  case Nil
  show ?case by (subst exec_from.simps) simp
next
  case (Cons c cs)
  show ?case by (subst exec_from.simps) (simp add: Cons.IH)
qed

lemma exec_from_bol_first:
  assumes "exec_from ic (Seq Bol r) None s = Some (b, m, a)"
  shows "b = []"
proof (cases "rm ic (Seq Bol r) (None, s)")
  case Nil
  have "exec_from ic (Seq Bol r) None s = None"
  proof (cases s)
    case Nil
    with \<open>rm ic (Seq Bol r) (None, s) = []\<close> show ?thesis
      by (subst exec_from.simps) (simp del: rm.simps)
  next
    case (Cons c cs)
    with \<open>rm ic (Seq Bol r) (None, s) = []\<close> show ?thesis
      by (subst exec_from.simps) (simp add: exec_from_bol_later del: rm.simps)
  qed
  with assms show ?thesis by simp
next
  case (Cons st sts)
  obtain p s' where "st = (p, s')" by (cases st)
  with Cons assms show ?thesis
    by (subst (asm) exec_from.simps) (simp del: rm.simps)
qed

lemma lang_leadingJunk:
  assumes "w \<in> lang False leadingJunk"
  shows "\<forall>c\<in>set w. \<not> is_digit c"
proof -
  let ?N = "NCls [CRange (ch CHR ''0'') (ch CHR ''9''), COne (ch CHR ''$''), COne 8364, COne 163]"
  from assms have w: "w \<in> rep_lang (lang False ?N) 1 None"
    by (auto simp: leadingJunk_def Plus_def)
  show ?thesis
  proof (rule rep_lang_chars [OF w])
    fix u assume "u \<in> lang False ?N"
    then show "\<forall>c\<in>set u. \<not> is_digit c"
      by (auto simp: in_class_def ch_def is_digit_def)
  qed
qed

lemma strip_prefix_keeps:
  assumes "w @ s' = u @ amt" and "amt = d0 # rest" and "d0 \<notin> set w"
  shows "\<exists>u'. s' = u' @ amt"
proof -
  from assms(1) consider us where "w = u @ us" "us @ s' = amt"
    | us where "w @ us = u" "s' = us @ amt"
    by (auto simp: append_eq_append_conv2)
  then show ?thesis
  proof cases
    case 1
    have "us = []"
    proof (cases us)
      case (Cons x xs)
      with 1 assms(2) have "x = d0" by simp
      with Cons 1(1) assms(3) show ?thesis by simp
    qed simp
    with 1 show ?thesis by simp
  next
    case 2
    then show ?thesis by blast
  qed
qed

lemma replace_leadingJunk_keeps:
  assumes "amountShape amt"
  shows "\<exists>u'. js_replace False leadingJunk [] (u @ amt) = u' @ amt"
proof (cases "js_exec False leadingJunk (u @ amt)")
  case None
  then have "js_replace False leadingJunk [] (u @ amt) = u @ amt"
    by (simp add: js_replace_def)
  then show ?thesis by blast
next
  case (Some t)
  obtain b m a where t: "t = (b, m, a)" by (cases t)
  from assms obtain d0 body d1 d2 where amt: "amt = d0 # body @ [46, d1, d2]" "is_digit d0"
    unfolding amountShape_def by blast
  have ex: "exec_from False (Seq Bol (Plus (NCls [CRange (ch CHR ''0'') (ch CHR ''9''),
      COne (ch CHR ''$''), COne 8364, COne 163]))) None (u @ amt) = Some (b, m, a)"
    using Some t by (simp only: js_exec_def leadingJunk_def)
  have b: "b = []" by (rule exec_from_bol_first [OF ex])
  have ex': "exec_from False leadingJunk None (u @ amt) = Some (b, m, a)"
    using ex by (simp only: leadingJunk_def)
  have snd: "u @ amt = b @ m @ a" "m \<in> lang False leadingJunk"
    using exec_from_sound [OF ex'] by blast+
  have eq: "m @ a = u @ amt" using snd(1) b by simp
  have "\<not> is_digit c" if "c \<in> set m" for c using lang_leadingJunk [OF snd(2)] that by blast
  then have notin: "d0 \<notin> set m" using amt(2) by blast
  obtain u' where u': "a = u' @ amt" using strip_prefix_keeps [OF eq amt(1) notin] by blast
  have "js_replace False leadingJunk [] (u @ amt) = a"
    unfolding js_replace_def Some t b by simp
  with u' show ?thesis by blast
qed

lemma dropWhile_append_keep:
  "ys \<noteq> [] \<Longrightarrow> \<not> P (hd ys) \<Longrightarrow> dropWhile P (xs @ ys) = dropWhile P xs @ ys"
  by (induction xs) (auto simp: neq_Nil_conv)

lemma trim_keeps:
  assumes "amountShape amt"
  shows "trim (u @ amt) = dropWhile is_space u @ amt"
proof -
  from assms obtain d0 body d1 d2 where a: "amt = d0 # body @ [46, d1, d2]" "is_digit d0" "is_digit d2"
    unfolding amountShape_def by blast
  have 1: "dropWhile is_space (u @ amt) = dropWhile is_space u @ amt"
    using a(1,2) by (intro dropWhile_append_keep) (auto dest: digit_not_space)
  have "rev (dropWhile is_space u @ amt) = d2 # rev (dropWhile is_space u @ d0 # body @ [46, d1])"
    using a(1) by simp
  then have "dropWhile is_space (rev (dropWhile is_space u @ amt)) = rev (dropWhile is_space u @ amt)"
    using a(3) by (simp add: digit_not_space)
  with 1 show ?thesis by (simp add: trim_def)
qed

lemma lineTotal_shape:
  assumes "lineTotal line = Some t"
  shows "\<exists>u amt. t = u @ amt \<and> amountShape amt"
proof (cases "js_match False currencyAmount line")
  case None
  with assms have "js_match False amountOnly line = Some t"
    by (auto simp: lineTotal_def split: if_splits)
  then have "amountShape t" using js_match_sound(1) lang_amountOnly by blast
  then have "t = [] @ t \<and> amountShape t" by simp
  then show ?thesis by blast
next
  case (Some m1)
  with assms have t: "t = trim (js_replace False leadingJunk [] m1)"
    by (auto simp: lineTotal_def split: if_splits)
  from js_match_sound(1) [OF Some] lang_currencyAmount obtain u amt where
    m1: "m1 = u @ amt" "amountShape amt" by blast
  from replace_leadingJunk_keeps [OF m1(2), of u] obtain u' where
    "js_replace False leadingJunk [] m1 = u' @ amt" using m1(1) by auto
  with t trim_keeps [OF m1(2), of u'] m1(2) show ?thesis by auto
qed










lemma maxOfMatches_append:
  "maxOfMatches (xs @ ys) acc = maxOfMatches ys (maxOfMatches xs acc)"
proof (induction xs arbitrary: acc)
  case Nil
  show ?case by simp
next
  case (Cons x xs)
  obtain mv s0 where "acc = (mv, s0)" by (cases acc)
  with Cons.IH show ?case by (simp split: option.splits)
qed

lemma maxOfLines_candidates: "maxOfLines lines acc = maxOfMatches (candidates lines) acc"
  by (induction lines arbitrary: acc) (simp_all add: candidates_def maxOfMatches_append)

lemma maxOfMatches_spec:
  assumes "maxOfMatches ms (mv, s0) = (V, S)"
  shows "mv \<le> V"
    and "\<forall>s\<in>set ms. \<forall>v. amountValue s = Some v \<longrightarrow> v \<le> V"
    and "(V = mv \<and> S = s0) \<or> (S \<in> set ms \<and> amountValue S = Some V \<and> mv < V)"
  using assms
proof (induction ms arbitrary: mv s0)
  case Nil
  { case 1 then show ?case by simp }
  { case 2 then show ?case by simp }
  { case 3 then show ?case by simp }
next
  case (Cons m ms)
  { case 1
    show ?case
    proof (cases "amountValue m")
      case None
      with 1 have "maxOfMatches ms (mv, s0) = (V, S)" by simp
      from Cons.IH(1) [OF this] show ?thesis .
    next
      case (Some v)
      show ?thesis
      proof (cases "v > mv")
        case True
        with 1 Some have "maxOfMatches ms (v, m) = (V, S)" by simp
        from Cons.IH(1) [OF this] True show ?thesis by simp
      next
        case False
        with 1 Some have "maxOfMatches ms (mv, s0) = (V, S)" by simp
        from Cons.IH(1) [OF this] show ?thesis .
      qed
    qed }
  { case 2
    show ?case
    proof (cases "amountValue m")
      case None
      with 2 have "maxOfMatches ms (mv, s0) = (V, S)" by simp
      from Cons.IH(2) [OF this] None show ?thesis by simp
    next
      case (Some v)
      show ?thesis
      proof (cases "v > mv")
        case True
        with 2 Some have r: "maxOfMatches ms (v, m) = (V, S)" by simp
        from Cons.IH(1) [OF r] Cons.IH(2) [OF r] Some show ?thesis by simp
      next
        case False
        with 2 Some have r: "maxOfMatches ms (mv, s0) = (V, S)" by simp
        from Cons.IH(1) [OF r] Cons.IH(2) [OF r] Some False show ?thesis by auto
      qed
    qed }
  { case 3
    show ?case
    proof (cases "amountValue m")
      case None
      with 3 have "maxOfMatches ms (mv, s0) = (V, S)" by simp
      from Cons.IH(3) [OF this] show ?thesis by auto
    next
      case (Some v)
      show ?thesis
      proof (cases "v > mv")
        case True
        with 3 Some have r: "maxOfMatches ms (v, m) = (V, S)" by simp
        from Cons.IH(1) [OF r] Cons.IH(3) [OF r] Some True show ?thesis by auto
      next
        case False
        with 3 Some have r: "maxOfMatches ms (mv, s0) = (V, S)" by simp
        from Cons.IH(3) [OF r] show ?thesis by auto
      qed
    qed }
qed

lemma candidates_shape: "s \<in> set (candidates lines) \<Longrightarrow> amountShape s"
  by (auto simp: candidates_def js_match_all_def dest!: match_all_from_sound lang_amount)

lemma tier1_result: "tier1 ls = [] \<or> (\<exists>l\<in>set ls. lineTotal l = Some (tier1 ls))"
  by (induction ls) (auto split: option.splits)

lemma tier1_first:
  assumes "\<forall>x\<in>set skipped. lineTotal x = None" "lineTotal l = Some a"
  shows "tier1 (skipped @ l # rest) = a"
  using assms by (induction skipped) auto

lemma lineTotal_nonempty: "lineTotal l = Some a \<Longrightarrow> a \<noteq> []"
  by (auto dest!: lineTotal_shape simp: amountShape_def)

lemma total_parse: "total (parseReceiptText text) = findTotal (splitLines text)"
  by (simp add: parseReceiptText_def Let_def)





lemma firstDate_first:
  assumes "k < length ps"
    and "\<forall>j<k. js_match (fst (ps ! j)) (snd (ps ! j)) t = None"
    and "js_match (fst (ps ! k)) (snd (ps ! k)) t = Some m"
  shows "firstDate ps t = m"
  using assms
proof (induction ps arbitrary: k)
  case Nil
  then show ?case by simp
next
  case (Cons p ps)
  obtain ic rx where p: "p = (ic, rx)" by (cases p)
  show ?case
  proof (cases k)
    case 0
    with Cons.prems p show ?thesis by simp
  next
    case (Suc k')
    with Cons.prems have "js_match ic rx t = None" using p by fastforce
    moreover have "firstDate ps t = m"
    proof (rule Cons.IH [of k'])
      show "k' < length ps" using Cons.prems(1) Suc by simp
      show "\<forall>j<k'. js_match (fst (ps ! j)) (snd (ps ! j)) t = None"
        using Cons.prems(2) Suc by fastforce
      show "js_match (fst (ps ! k')) (snd (ps ! k')) t = Some m"
        using Cons.prems(3) Suc by simp
    qed
    ultimately show ?thesis using p by simp
  qed
qed

lemma firstDate_none:
  assumes "\<forall>j<length ps. js_match (fst (ps ! j)) (snd (ps ! j)) t = None"
  shows "firstDate ps t = []"
  using assms
proof (induction ps)
  case Nil
  show ?case by simp
next
  case (Cons p ps)
  obtain ic rx where p: "p = (ic, rx)" by (cases p)
  from Cons.prems have "js_match ic rx t = None" using p by fastforce
  moreover have "firstDate ps t = []"
  proof (rule Cons.IH)
    show "\<forall>j<length ps. js_match (fst (ps ! j)) (snd (ps ! j)) t = None"
      using Cons.prems by fastforce
  qed
  ultimately show ?case using p by simp
qed

lemma date_parse: "date (parseReceiptText text) = findDate (fullTextOf (splitLines text))"
  by (simp add: parseReceiptText_def Let_def)

lemma split_from_chars:
  "x \<in> set (split_from ic r prev acc s) \<Longrightarrow> set x \<subseteq> set acc \<union> set s"
proof (induction ic r prev acc s arbitrary: x rule: split_from.induct)
  case (1 ic r prev acc s)
  show ?case
  proof (cases s)
    case Nil
    with "1.prems" show ?thesis by (subst (asm) split_from.simps) simp
  next
    case (Cons c cs)
    show ?thesis
    proof (cases "rm ic r (prev, s)")
      case Nil
      with "1.prems" Cons have "x \<in> set (split_from ic r (Some c) (c # acc) cs)"
        by (subst (asm) split_from.simps) simp
      from "1.IH"(1) [OF Cons Nil this] Cons show ?thesis by auto
    next
      case rmc: (Cons st sts)
      obtain p' s' where st: "st = (p', s')" by (cases st)
      have "consumes (lang ic r) (prev, s) (p', s')"
        using rm_sound [of st ic r "(prev, s)"] rmc st by simp
      then have sub: "set s' \<subseteq> set s" unfolding consumes_def by auto
      show ?thesis
      proof (cases "length s' < length s")
        case True
        with "1.prems" Cons rmc st have "x = rev acc \<or> x \<in> set (split_from ic r p' [] s')"
          by (subst (asm) split_from.simps) auto
        then show ?thesis
        proof
          assume "x = rev acc" then show ?thesis by auto
        next
          assume "x \<in> set (split_from ic r p' [] s')"
          from "1.IH"(2) [OF Cons rmc st [symmetric] True this] sub show ?thesis by auto
        qed
      next
        case False
        show ?thesis
        proof (cases "acc = []")
          case True
          with "1.prems" Cons rmc st False have "x \<in> set (split_from ic r (Some c) [c] cs)"
            by (subst (asm) split_from.simps) auto
          from "1.IH"(3) [OF Cons rmc st [symmetric] False True this] Cons show ?thesis by auto
        next
          case F2: False
          with "1.prems" Cons rmc st False
          have "x = rev acc \<or> x \<in> set (split_from ic r (Some c) [c] cs)"
            by (subst (asm) split_from.simps) auto
          then show ?thesis
          proof
            assume "x = rev acc" then show ?thesis by auto
          next
            assume "x \<in> set (split_from ic r (Some c) [c] cs)"
            from "1.IH"(4) [OF Cons rmc st [symmetric] False F2 this] Cons show ?thesis by auto
          qed
        qed
      qed
    qed
  qed
qed

lemma js_split_chars: "x \<in> set (js_split ic r s) \<Longrightarrow> set x \<subseteq> set s"
  using split_from_chars [of x ic r None "[]" s]
  by (auto simp: js_split_def split: if_splits)

lemma trim_blank: "\<forall>c\<in>set s. is_space c \<Longrightarrow> trim s = []"
proof -
  assume a: "\<forall>c\<in>set s. is_space c"
  then have d: "dropWhile is_space s = []" by simp
  show ?thesis unfolding trim_def d by simp
qed

lemma splitLines_blank:
  assumes "\<forall>c\<in>set text. is_space c"
  shows "splitLines text = []"
proof -
  have "trim x = []" if "x \<in> set (js_split False lineBreak text)" for x
    using js_split_chars [OF that] assms by (intro trim_blank) auto
  then show ?thesis by (auto simp: splitLines_def filter_empty_conv)
qed

lemma no_lines_result:
  "findDate (fullTextOf []) = []" "findMerchant [] = []" "findTotal [] = []"
  by code_simp+

lemma merchant_parse: "merchant (parseReceiptText text) = findMerchant (splitLines text)"
  by (simp add: parseReceiptText_def Let_def)

lemma header_lines:
  "js_test True skipKeywords (str ''*** RECEIPT ***'')"
  "\<not> alphaRatioLow (str ''*** RECEIPT ***'')"
  "alphaRatioLow (str ''12345'')"
  "js_test True skipKeywords (str ''Fresh Foods Market'')"
  "\<not> alphaRatioLow (str ''Fresh Foods Market'')"
  "alphaRatioLow (str ''Date: 2024-01-01'')"
  by code_simp+

section \<open>Date extraction on concrete receipts\<close>


text \<open>
  C2. The lines are joined with the four characters space, backslash, \<open>n\<close>, space, so
  the backslash stands between the month name and the year of a date split over two lines
  and the month-name pattern does not match: for the two lines \<open>12 Jan\<close> and \<open>2024\<close>
  the extracted date is empty. On the same two lines joined with a line feed between the
  spaces, the pattern matches.
\<close>

theorem split_date_not_matched:
  "splitLines (str ''12 Jan\<newline>2024'') = [str ''12 Jan'', str ''2024''] \<and>
   fullTextOf (splitLines (str ''12 Jan\<newline>2024'')) = str ''12 Jan '' @ [92, 110] @ str '' 2024'' \<and>
   date (parseReceiptText (str ''12 Jan\<newline>2024'')) = [] \<and>
   findDate (str ''12 Jan \<newline> 2024'') = str ''12 Jan \<newline> 2024''"
  by code_simp

text \<open>
  C5. The four date patterns are tried in the order year-first, month-first, day-first,
  month-name. The extracted date is the match of the first pattern in that order that
  matches the joined text somewhere, and that match is a substring of the joined text; it
  is empty when no pattern matches. In particular, when the year-first pattern fails and
  the month-first pattern matches, the month-first match is returned whatever the
  day-first pattern would match.
\<close>

theorem date_first_pattern_in_order_wins:
  "(k < length datePatterns \<and>
    (\<forall>j<k. js_match (fst (datePatterns ! j)) (snd (datePatterns ! j)) (fullTextOf (splitLines text)) = None) \<and>
    js_match (fst (datePatterns ! k)) (snd (datePatterns ! k)) (fullTextOf (splitLines text)) = Some m
      \<longrightarrow> date (parseReceiptText text) = m \<and> (\<exists>b a. fullTextOf (splitLines text) = b @ m @ a)) \<and>
   ((\<forall>j<length datePatterns.
       js_match (fst (datePatterns ! j)) (snd (datePatterns ! j)) (fullTextOf (splitLines text)) = None)
      \<longrightarrow> date (parseReceiptText text) = []) \<and>
   (js_match False dateYMD (fullTextOf (splitLines text)) = None \<and>
    js_match False dateMDY (fullTextOf (splitLines text)) = Some m2
      \<longrightarrow> date (parseReceiptText text) = m2) \<and>
   datePatterns = [(False, dateYMD), (False, dateMDY), (False, dateDMY), (True, dateDMonY)]"
proof (intro conjI impI)
  let ?t = "fullTextOf (splitLines text)"
  assume h: "k < length datePatterns \<and>
    (\<forall>j<k. js_match (fst (datePatterns ! j)) (snd (datePatterns ! j)) ?t = None) \<and>
    js_match (fst (datePatterns ! k)) (snd (datePatterns ! k)) ?t = Some m"
  then show "date (parseReceiptText text) = m"
    using firstDate_first [of k datePatterns ?t m] by (simp add: date_parse findDate_def)
  from h show "\<exists>b a. ?t = b @ m @ a" using js_match_sound(2) by blast
next
  let ?t = "fullTextOf (splitLines text)"
  assume "\<forall>j<length datePatterns.
       js_match (fst (datePatterns ! j)) (snd (datePatterns ! j)) ?t = None"
  then show "date (parseReceiptText text) = []"
    using firstDate_none [of datePatterns ?t] by (simp add: date_parse findDate_def)
next
  let ?t = "fullTextOf (splitLines text)"
  assume "js_match False dateYMD ?t = None \<and> js_match False dateMDY ?t = Some m2"
  then show "date (parseReceiptText text) = m2"
    by (simp add: date_parse findDate_def datePatterns_def)
next
  show "datePatterns = [(False, dateYMD), (False, dateMDY), (False, dateDMY), (True, dateDMonY)]"
    by (simp add: datePatterns_def)
qed

theorem date_first_pattern_in_order_wins_witness:
  "fullTextOf (splitLines (str ''Paid 03/04/2024'')) = str ''Paid 03/04/2024'' \<and>
   js_match False dateYMD (str ''Paid 03/04/2024'') = None \<and>
   js_match False dateMDY (str ''Paid 03/04/2024'') = Some (str ''03/04/2024'') \<and>
   js_match False dateDMY (str ''Paid 03/04/2024'') = Some (str ''03/04/2024'') \<and>
   date (parseReceiptText (str ''Paid 03/04/2024'')) = str ''03/04/2024''"
proof -
  let ?T = "str ''Paid 03/04/2024''"
  have h0: "fullTextOf (splitLines ?T) = ?T" by code_simp
  have h1: "js_match False dateYMD ?T = None" by code_simp
  have h2: "js_match False dateMDY ?T = Some (str ''03/04/2024'')" by code_simp
  have h3: "js_match False dateDMY ?T = Some (str ''03/04/2024'')" by code_simp
  have "date (parseReceiptText ?T) = str ''03/04/2024''"
    using date_first_pattern_in_order_wins [of _ ?T _ "str ''03/04/2024''", THEN conjunct2,
        THEN conjunct2, THEN conjunct1] h0 h1 h2
    by simp
  with h0 h1 h2 h3 show ?thesis by blast
qed

section \<open>Total extraction\<close>

text \<open>
  C10. Every non-empty total returned by the extraction ends with a decimal point followed
  by two digits, whichever path produced it (currency-anchored, bare amount or the
  fallback maximum); an amount without a two-digit fraction is not extracted: for
  \<open>Total $11\<close> the total is empty.
\<close>

theorem total_ends_with_two_decimals:
  "(total (parseReceiptText text) \<noteq> [] \<longrightarrow>
      (\<exists>pre d1 d2. total (parseReceiptText text) = pre @ [46, d1, d2] \<and> is_digit d1 \<and> is_digit d2)) \<and>
   total (parseReceiptText (str ''Total $11'')) = []"
proof (intro conjI impI)
  let ?lines = "splitLines text"
  assume ne: "total (parseReceiptText text) \<noteq> []"
  have "\<exists>u amt. findTotal ?lines = u @ amt \<and> amountShape amt"
  proof (cases "tier1 (rev ?lines) = []")
    case False
    with tier1_result [of "rev ?lines"] obtain l where "lineTotal l = Some (tier1 (rev ?lines))"
      by blast
    from lineTotal_shape [OF this] False show ?thesis by (simp add: findTotal_def)
  next
    case True
    obtain V S where VS: "maxOfMatches (candidates ?lines) (- 1, []) = (V, S)"
      by (cases "maxOfMatches (candidates ?lines) (- 1, [])")
    have t2: "findTotal ?lines = (if V > 0 then S else [])"
      using True VS by (simp add: findTotal_def tier2_def maxOfLines_candidates)
    with ne have "V > 0" "findTotal ?lines = S" by (auto simp: total_parse split: if_splits)
    with maxOfMatches_spec(3) [OF VS] have "S \<in> set (candidates ?lines)" by auto
    then have "amountShape S" by (rule candidates_shape)
    then have "findTotal ?lines = [] @ S \<and> amountShape S" using \<open>findTotal ?lines = S\<close> by simp
    then show ?thesis by blast
  qed
  then obtain u amt where "findTotal ?lines = u @ amt" "amountShape amt" by blast
  with amountShape_ends [of amt u] show
    "\<exists>pre d1 d2. total (parseReceiptText text) = pre @ [46, d1, d2] \<and> is_digit d1 \<and> is_digit d2"
    by (simp add: total_parse endsWithCents_def)
next
  show "total (parseReceiptText (str ''Total $11'')) = []" by code_simp
qed

theorem total_ends_with_two_decimals_witness:
  "total (parseReceiptText (str ''Total $11.00'')) \<noteq> [] \<and>
   (\<exists>pre d1 d2. total (parseReceiptText (str ''Total $11.00'')) = pre @ [46, d1, d2] \<and>
      is_digit d1 \<and> is_digit d2)"
proof -
  have h: "total (parseReceiptText (str ''Total $11.00'')) \<noteq> []" by code_simp
  from total_ends_with_two_decimals [of "str ''Total $11.00''", THEN conjunct1, rule_format, OF h] h
  show ?thesis by blast
qed

text \<open>
  C3. The keyword tier scans the lines from the last to the first. When a line yields an
  amount and no line below it does, that amount is the returned total, whatever the lines
  above hold. A line yields nothing exactly when it has no total keyword or neither the
  currency-anchored nor the bare pattern matches it; otherwise it yields the
  currency-anchored match with leading junk stripped and trimmed, or else the bare match.
  For the lines \<open>Subtotal $10.00\<close>, \<open>Tax $1.00\<close>, \<open>Total $11.00\<close> the total is
  \<open>$11.00\<close>.
\<close>

theorem tier1_bottom_most_amount_wins:
  "(splitLines text = upper @ l # lower \<and> (\<forall>x\<in>set lower. lineTotal x = None) \<and>
      lineTotal l = Some a \<longrightarrow> total (parseReceiptText text) = a) \<and>
   (lineTotal x = None \<longleftrightarrow>
      \<not> js_test True totalKeyword x \<or>
      (js_match False currencyAmount x = None \<and> js_match False amountOnly x = None)) \<and>
   (lineTotal l = Some a \<longleftrightarrow>
      js_test True totalKeyword l \<and>
      (case js_match False currencyAmount l of
         Some m1 \<Rightarrow> a = trim (js_replace False leadingJunk [] m1)
       | None \<Rightarrow> js_match False amountOnly l = Some a)) \<and>
   total (parseReceiptText (str ''Subtotal $10.00\<newline>Tax $1.00\<newline>Total $11.00'')) = str ''$11.00''"
proof (intro conjI impI)
  assume h: "splitLines text = upper @ l # lower \<and> (\<forall>x\<in>set lower. lineTotal x = None) \<and>
      lineTotal l = Some a"
  then have "rev (splitLines text) = rev lower @ l # rev upper" by simp
  moreover have "\<forall>x\<in>set (rev lower). lineTotal x = None" using h by simp
  ultimately have "tier1 (rev (splitLines text)) = a" using tier1_first h by metis
  moreover have "a \<noteq> []" using h lineTotal_nonempty by blast
  ultimately show "total (parseReceiptText text) = a" by (simp add: total_parse findTotal_def)
next
  show "lineTotal x = None \<longleftrightarrow>
      \<not> js_test True totalKeyword x \<or>
      (js_match False currencyAmount x = None \<and> js_match False amountOnly x = None)"
    by (simp add: lineTotal_def split: option.splits)
next
  show "lineTotal l = Some a \<longleftrightarrow>
      js_test True totalKeyword l \<and>
      (case js_match False currencyAmount l of
         Some m1 \<Rightarrow> a = trim (js_replace False leadingJunk [] m1)
       | None \<Rightarrow> js_match False amountOnly l = Some a)"
    by (auto simp: lineTotal_def split: option.splits)
next
  show "total (parseReceiptText (str ''Subtotal $10.00\<newline>Tax $1.00\<newline>Total $11.00'')) = str ''$11.00''"
    by code_simp
qed

theorem tier1_bottom_most_amount_wins_witness:
  "splitLines (str ''Subtotal $10.00\<newline>Total $11.00\<newline>Total items: 3\<newline>Thank you'')
     = [str ''Subtotal $10.00''] @ str ''Total $11.00'' # [str ''Total items: 3'', str ''Thank you''] \<and>
   lineTotal (str ''Total items: 3'') = None \<and> lineTotal (str ''Thank you'') = None \<and>
   lineTotal (str ''Total $11.00'') = Some (str ''$11.00'') \<and>
   lineTotal (str ''Subtotal $10.00'') = Some (str ''$10.00'') \<and>
   total (parseReceiptText (str ''Subtotal $10.00\<newline>Total $11.00\<newline>Total items: 3\<newline>Thank you''))
     = str ''$11.00''"
proof -
  let ?T = "str ''Subtotal $10.00\<newline>Total $11.00\<newline>Total items: 3\<newline>Thank you''"
  have h1: "splitLines ?T
     = [str ''Subtotal $10.00''] @ str ''Total $11.00'' # [str ''Total items: 3'', str ''Thank you'']"
    by code_simp
  have h2: "lineTotal (str ''Total items: 3'') = None" "lineTotal (str ''Thank you'') = None"
    by code_simp+
  have h3: "lineTotal (str ''Total $11.00'') = Some (str ''$11.00'')" by code_simp
  have h4: "lineTotal (str ''Subtotal $10.00'') = Some (str ''$10.00'')" by code_simp
  have h5: "\<forall>x\<in>set [str ''Total items: 3'', str ''Thank you'']. lineTotal x = None"
    using h2 by simp
  have "total (parseReceiptText ?T) = str ''$11.00''"
    using tier1_bottom_most_amount_wins [of ?T "[str ''Subtotal $10.00'']" "str ''Total $11.00''"
        "[str ''Total items: 3'', str ''Thank you'']" "str ''$11.00''", THEN conjunct1] h1 h3 h5
    by blast
  with h1 h2 h3 h4 show ?thesis by blast
qed



section \<open>Merchant extraction\<close>

text \<open>
  C1, as stated, at the four header lines of the specification's example: the merchant is
  not \<open>Fresh Foods Market\<close>.
\<close>

theorem merchant_example_counterexample:
  "merchant (parseReceiptText
      (str ''*** RECEIPT ***\<newline>12345\<newline>Fresh Foods Market\<newline>Date: 2024-01-01''))
   \<noteq> str ''Fresh Foods Market''"
  by code_simp

text \<open>
  C1, amended. When the non-empty trimmed lines begin with the four header lines
  \<open>*** RECEIPT ***\<close>, \<open>12345\<close>, \<open>Fresh Foods Market\<close>, \<open>Date: 2024-01-01\<close>, all
  four are skipped and the merchant is decided by the next eight lines: the boilerplate
  line is skipped by the deny-list, the numeric line by the alpha-ratio filter, the line
  \<open>Fresh Foods Market\<close> passes the alpha-ratio filter and is skipped by the deny-list (it
  contains \<open>market\<close>), and the date line is skipped by the alpha-ratio filter, which comes
  first (the deny-list would reject it too). With these four lines alone the merchant is
  empty.
\<close>

theorem merchant_header_all_skipped:
  "(splitLines text = str ''*** RECEIPT ***'' # str ''12345'' # str ''Fresh Foods Market'' #
                      str ''Date: 2024-01-01'' # rest
      \<longrightarrow> merchant (parseReceiptText text) = merchantScan (take 8 rest)) \<and>
   js_test True skipKeywords (str ''*** RECEIPT ***'') \<and>
   alphaRatioLow (str ''12345'') \<and>
   \<not> alphaRatioLow (str ''Fresh Foods Market'') \<and>
   js_test True skipKeywords (str ''Fresh Foods Market'') \<and>
   alphaRatioLow (str ''Date: 2024-01-01'') \<and>
   js_test True skipKeywords (str ''Date: 2024-01-01'') \<and>
   merchant (parseReceiptText
      (str ''*** RECEIPT ***\<newline>12345\<newline>Fresh Foods Market\<newline>Date: 2024-01-01'')) = []"
proof (intro conjI impI)
  let ?h1 = "str ''*** RECEIPT ***''" and ?h2 = "str ''12345''"
    and ?h3 = "str ''Fresh Foods Market''" and ?h4 = "str ''Date: 2024-01-01''"
  assume l: "splitLines text = ?h1 # ?h2 # ?h3 # ?h4 # rest"
  have "take (min (length (?h1 # ?h2 # ?h3 # ?h4 # rest)) 12) (?h1 # ?h2 # ?h3 # ?h4 # rest)
        = ?h1 # ?h2 # ?h3 # ?h4 # take 8 rest"
    by (simp add: take_Cons' min_def)
  then have "findMerchant (splitLines text) = merchantScan (?h1 # ?h2 # ?h3 # ?h4 # take 8 rest)"
    unfolding findMerchant_def l by simp
  also have "\<dots> = merchantScan (take 8 rest)"
    by (simp add: header_lines)
  finally show "merchant (parseReceiptText text) = merchantScan (take 8 rest)"
    by (simp add: merchant_parse)
qed (code_simp+)

theorem merchant_header_all_skipped_witness:
  "splitLines (str ''*** RECEIPT ***\<newline>12345\<newline>Fresh Foods Market\<newline>Date: 2024-01-01\<newline>Acme Grocers'')
     = str ''*** RECEIPT ***'' # str ''12345'' # str ''Fresh Foods Market'' # str ''Date: 2024-01-01'' #
       [str ''Acme Grocers''] \<and>
   merchantScan (take 8 [str ''Acme Grocers'']) = str ''Acme Grocers'' \<and>
   merchant (parseReceiptText
      (str ''*** RECEIPT ***\<newline>12345\<newline>Fresh Foods Market\<newline>Date: 2024-01-01\<newline>Acme Grocers''))
     = str ''Acme Grocers''"
proof -
  let ?T = "str ''*** RECEIPT ***\<newline>12345\<newline>Fresh Foods Market\<newline>Date: 2024-01-01\<newline>Acme Grocers''"
  have h1: "splitLines ?T
     = str ''*** RECEIPT ***'' # str ''12345'' # str ''Fresh Foods Market'' # str ''Date: 2024-01-01'' #
       [str ''Acme Grocers'']"
    by code_simp
  have h2: "merchantScan (take 8 [str ''Acme Grocers'']) = str ''Acme Grocers''" by code_simp
  have "merchant (parseReceiptText ?T) = merchantScan (take 8 [str ''Acme Grocers''])"
    using merchant_header_all_skipped [of ?T "[str ''Acme Grocers'']", THEN conjunct1] h1 by blast
  with h1 h2 show ?thesis by simp
qed

section \<open>The extraction as a whole\<close>

text \<open>
  C6. The extraction is defined on every string: the result is a record of four strings,
  its \<open>raw\<close> field is the input, and on an input of white space only (the empty string
  included) the date, the merchant and the total are empty.
\<close>

theorem extraction_total_on_every_string:
  "(\<exists>d m t. parseReceiptText text = \<lparr> date = d, merchant = m, total = t, raw = text \<rparr>) \<and>
   raw (parseReceiptText text) = text \<and>
   ((\<forall>c\<in>set text. is_space c) \<longrightarrow>
      date (parseReceiptText text) = [] \<and> merchant (parseReceiptText text) = [] \<and>
      total (parseReceiptText text) = [])"
proof (intro conjI impI)
  show "\<exists>d m t. parseReceiptText text = \<lparr> date = d, merchant = m, total = t, raw = text \<rparr>"
    by (simp add: parseReceiptText_def Let_def)
next
  show "raw (parseReceiptText text) = text" by (simp add: parseReceiptText_def Let_def)
next
  assume "\<forall>c\<in>set text. is_space c"
  then have l: "splitLines text = []" by (rule splitLines_blank)
  show "date (parseReceiptText text) = []"
    by (simp add: parseReceiptText_def Let_def l no_lines_result)
  show "merchant (parseReceiptText text) = []"
    by (simp add: parseReceiptText_def Let_def l no_lines_result)
  show "total (parseReceiptText text) = []"
    by (simp add: parseReceiptText_def Let_def l no_lines_result)
qed

theorem extraction_total_on_every_string_witness:
  "list_all is_space [32, 9, 13, 10, 32, 160] \<and>
   parseReceiptText [32, 9, 13, 10, 32, 160]
     = \<lparr> date = [], merchant = [], total = [], raw = [32, 9, 13, 10, 32, 160] \<rparr>"
proof -
  let ?T = "[32, 9, 13, 10, 32, 160] :: jsstring"
  have h: "list_all is_space ?T" by code_simp
  then have h': "\<forall>c\<in>set ?T. is_space c" by (simp only: list_all_iff)
  from extraction_total_on_every_string [of ?T] h'
  have "raw (parseReceiptText ?T) = ?T" "date (parseReceiptText ?T) = []"
    "merchant (parseReceiptText ?T) = []" "total (parseReceiptText ?T) = []"
    by blast+
  then have "parseReceiptText ?T = \<lparr> date = [], merchant = [], total = [], raw = ?T \<rparr>"
    by (cases "parseReceiptText ?T") simp
  with h show ?thesis by blast
qed



section \<open>CSV escaping\<close>



end
